theory Spec2Isabelle
  imports Main
begin

section \<open>OrderedCounter: an insertion-ordered counter\<close>

text \<open>
  \<^verbatim>\<open>class OrderedCounter(Counter, OrderedDict)\<close> is a dictionary from keys to Python
  integers that iterates in insertion order. Its contents are an association list whose
  keys are pairwise distinct, in iteration order; counts are unbounded integers.
\<close>

type_synonym 'k entries = "('k \<times> int) list"

definition keys :: "'k entries \<Rightarrow> 'k list" where
  "keys d = map fst d"

text \<open>The well-formedness of a dictionary: no key occurs twice.\<close>

definition wf_entries :: "'k entries \<Rightarrow> bool" where
  "wf_entries d = distinct (keys d)"

subsection \<open>The inherited dictionary protocol\<close>

text \<open>
  \<^verbatim>\<open>self.items()\<close> (from \<open>OrderedDict\<close>): the pairs in iteration order.
\<close>

definition items :: "'k entries \<Rightarrow> ('k \<times> int) list" where
  "items d = d"

text \<open>\<^verbatim>\<open>elem in d\<close>: key membership.\<close>

definition contains :: "'k entries \<Rightarrow> 'k \<Rightarrow> bool" where
  "contains d k = (k \<in> set (keys d))"

text \<open>
  \<^verbatim>\<open>d[k]\<close> on a \<open>Counter\<close>: the stored count, and \<open>Counter.__missing__\<close> gives 0
  for an absent key (nothing is stored by the lookup).
\<close>

definition getitem :: "'k entries \<Rightarrow> 'k \<Rightarrow> int" where
  "getitem d k = (case map_of d k of None \<Rightarrow> 0 | Some c \<Rightarrow> c)"

text \<open>\<^verbatim>\<open>d.get(k, default)\<close>.\<close>

definition dict_get :: "'k entries \<Rightarrow> 'k \<Rightarrow> int \<Rightarrow> int" where
  "dict_get d k dflt = (case map_of d k of None \<Rightarrow> dflt | Some c \<Rightarrow> c)"

text \<open>
  \<^verbatim>\<open>d[k] = v\<close> (\<open>OrderedDict.__setitem__\<close>): a present key keeps its position and
  gets the new value, a new key is appended at the end.
\<close>

fun setitem :: "'k entries \<Rightarrow> 'k \<Rightarrow> int \<Rightarrow> 'k entries" where
  "setitem [] k v = [(k, v)]"
| "setitem ((k', v') # d) k v =
     (if k' = k then (k', v) # d else (k', v') # setitem d k v)"

text \<open>
  \<^verbatim>\<open>del d[k]\<close> (\<open>Counter.__delitem__\<close>): removes the key when it is present and does
  nothing otherwise.
\<close>

fun delitem :: "'k entries \<Rightarrow> 'k \<Rightarrow> 'k entries" where
  "delitem [] k = []"
| "delitem ((k', v') # d) k = (if k' = k then d else (k', v') # delitem d k)"

subsection \<open>Python values seen by the operators\<close>

text \<open>
  The right operand of a binary operator is any Python object. Only whether it is an
  instance of \<open>Counter\<close> matters to the code; a plain dictionary, an integer, a string
  and \<open>None\<close> stand for the objects that are not.
\<close>

datatype 'k pyobj =
    Counter "'k entries"
  | PyDict "'k entries"
  | PyInt int
  | PyStr string
  | PyNone

fun isinstance_Counter :: "'k pyobj \<Rightarrow> bool" where
  "isinstance_Counter (Counter d) = True"
| "isinstance_Counter _ = False"

text \<open>The entries of an operand that passed the \<open>isinstance\<close> check.\<close>

fun entries_of :: "'k pyobj \<Rightarrow> 'k entries" where
  "entries_of (Counter d) = d"
| "entries_of (PyDict d) = d"
| "entries_of _ = []"

text \<open>
  What an operator method hands back: a new counter, the \<open>NotImplemented\<close> singleton,
  or a raised \<open>TypeError\<close> (the binary \<open>-\<close> applied to \<open>NotImplemented\<close>).
\<close>

datatype 'k outcome =
    Result "'k entries"
  | NotImplemented
  | TypeError

subsection \<open>Construction\<close>

text \<open>
  \<^verbatim>\<open>OrderedCounter(iterable)\<close> runs \<open>Counter.update\<close>, which counts the elements:
  \<^verbatim>\<open>for elem in iterable: mapping[elem] = mapping.get(elem, 0) + 1\<close>.
\<close>

definition count_elements :: "'k entries \<Rightarrow> 'k list \<Rightarrow> 'k entries" where
  "count_elements mapping iterable =
     fold (\<lambda>elem m. setitem m elem (dict_get m elem 0 + 1)) iterable mapping"

definition OrderedCounter_of_iterable :: "'k list \<Rightarrow> 'k entries" where
  "OrderedCounter_of_iterable iterable = count_elements [] iterable"

text \<open>
  \<^verbatim>\<open>OrderedCounter(mapping)\<close> and \<^verbatim>\<open>OrderedDict(mapping)\<close> on an empty receiver store
  each pair of the mapping in its order: \<^verbatim>\<open>for key in other: self[key] = other[key]\<close>.
\<close>

definition dict_update :: "'k entries \<Rightarrow> 'k entries \<Rightarrow> 'k entries" where
  "dict_update d other = fold (\<lambda>(key, v) m. setitem m key v) (items other) d"

definition OrderedDict_of :: "'k entries \<Rightarrow> 'k entries" where
  "OrderedDict_of d = dict_update [] d"

definition OrderedCounter_of_mapping :: "'k entries \<Rightarrow> 'k entries" where
  "OrderedCounter_of_mapping d = dict_update [] d"

subsection \<open>The operators of the class\<close>

text \<open>\<^verbatim>\<open>__add__\<close>\<close>

definition OrderedCounter_add :: "'k entries \<Rightarrow> 'k pyobj \<Rightarrow> 'k outcome" where
  "OrderedCounter_add self other =
     (if \<not> isinstance_Counter other then NotImplemented
      else
        let result = [];
            result = fold (\<lambda>(elem, count) result.
                       let newcount = count + getitem (entries_of other) elem
                       in if newcount > 0 then setitem result elem newcount else result)
                     (items self) result;
            result = fold (\<lambda>(elem, count) result.
                       if \<not> contains self elem \<and> count > 0
                       then setitem result elem count else result)
                     (items (entries_of other)) result
        in Result result)"

text \<open>\<^verbatim>\<open>__sub__\<close>\<close>

definition OrderedCounter_sub :: "'k entries \<Rightarrow> 'k pyobj \<Rightarrow> 'k outcome" where
  "OrderedCounter_sub self other =
     (if \<not> isinstance_Counter other then NotImplemented
      else
        let result = [];
            result = fold (\<lambda>(elem, count) result.
                       let newcount = count - getitem (entries_of other) elem
                       in if newcount > 0 then setitem result elem newcount else result)
                     (items self) result;
            result = fold (\<lambda>(elem, count) result.
                       if \<not> contains self elem \<and> count < 0
                       then setitem result elem (0 - count) else result)
                     (items (entries_of other)) result
        in Result result)"

text \<open>\<^verbatim>\<open>__or__\<close>\<close>

definition OrderedCounter_or :: "'k entries \<Rightarrow> 'k pyobj \<Rightarrow> 'k outcome" where
  "OrderedCounter_or self other =
     (if \<not> isinstance_Counter other then NotImplemented
      else
        let result = [];
            result = fold (\<lambda>(elem, count) result.
                       let other_count = getitem (entries_of other) elem;
                           newcount = (if count < other_count then other_count else count)
                       in if newcount > 0 then setitem result elem newcount else result)
                     (items self) result;
            result = fold (\<lambda>(elem, count) result.
                       if \<not> contains self elem \<and> count > 0
                       then setitem result elem count else result)
                     (items (entries_of other)) result
        in Result result)"

text \<open>\<^verbatim>\<open>__and__\<close>\<close>

definition OrderedCounter_and :: "'k entries \<Rightarrow> 'k pyobj \<Rightarrow> 'k outcome" where
  "OrderedCounter_and self other =
     (if \<not> isinstance_Counter other then NotImplemented
      else
        let result = [];
            result = fold (\<lambda>(elem, count) result.
                       let other_count = getitem (entries_of other) elem;
                           newcount = (if count < other_count then count else other_count)
                       in if newcount > 0 then setitem result elem newcount else result)
                     (items self) result
        in Result result)"

text \<open>
  The binary \<^verbatim>\<open>-\<close> of the interpreter on two operator results: the left operand's
  \<open>__sub__\<close> when it is a counter; \<open>NotImplemented\<close> has no subtraction.
\<close>

fun binary_minus :: "'k outcome \<Rightarrow> 'k outcome \<Rightarrow> 'k outcome" where
  "binary_minus (Result l) (Result r) =
     (case OrderedCounter_sub l (Counter r) of NotImplemented \<Rightarrow> TypeError | res \<Rightarrow> res)"
| "binary_minus _ _ = TypeError"

text \<open>\<^verbatim>\<open>__xor__\<close>\<close>

definition OrderedCounter_xor :: "'k entries \<Rightarrow> 'k pyobj \<Rightarrow> 'k outcome" where
  "OrderedCounter_xor self other =
     (if \<not> isinstance_Counter other then NotImplemented
      else binary_minus (OrderedCounter_or self other) (OrderedCounter_and self other))"

text \<open>\<^verbatim>\<open>__pos__\<close>\<close>

definition OrderedCounter_pos :: "'k entries \<Rightarrow> 'k entries" where
  "OrderedCounter_pos self =
     (let result = [];
          result = fold (\<lambda>(elem, count) result.
                     if count > 0 then setitem result elem count else result)
                   (items self) result
      in result)"

text \<open>\<^verbatim>\<open>__neg__\<close>\<close>

definition OrderedCounter_neg :: "'k entries \<Rightarrow> 'k entries" where
  "OrderedCounter_neg self =
     (let result = [];
          result = fold (\<lambda>(elem, count) result.
                     if count < 0 then setitem result elem (0 - count) else result)
                   (items self) result
      in result)"

text \<open>
  \<^verbatim>\<open>__reduce__\<close> returns the class and the argument tuple \<open>(OrderedDict(self),)\<close>;
  the class is the constructor to call on reconstruction. \<^verbatim>\<open>__repr__\<close> formats the
  class name and the same \<open>OrderedDict(self)\<close>.
\<close>

datatype cls = OrderedCounter_cls

definition OrderedCounter_reduce :: "'k entries \<Rightarrow> cls \<times> 'k entries" where
  "OrderedCounter_reduce self = (OrderedCounter_cls, OrderedDict_of self)"

definition OrderedCounter_repr :: "'k entries \<Rightarrow> string \<times> 'k entries" where
  "OrderedCounter_repr self = (''OrderedCounter'', OrderedDict_of self)"

text \<open>Reconstruction: the class is called on the argument tuple.\<close>

fun reconstruct :: "cls \<times> 'k entries \<Rightarrow> 'k entries" where
  "reconstruct (OrderedCounter_cls, arg) = OrderedCounter_of_mapping arg"

section \<open>The operations as the specification words them\<close>

text \<open>
  Add: each key of \<open>a\<close>, in \<open>a\<close>'s order, with \<open>a[key] + b[key]\<close> when that is positive;
  then each key of \<open>b\<close> that is absent from \<open>a\<close>, in \<open>b\<close>'s order, with \<open>b[key]\<close> when
  that is positive.
\<close>

definition Add_spec :: "'k entries \<Rightarrow> 'k entries \<Rightarrow> 'k entries" where
  "Add_spec a b =
     map (\<lambda>key. (key, getitem a key + getitem b key))
       (filter (\<lambda>key. getitem a key + getitem b key > 0) (keys a))
     @ map (\<lambda>key. (key, getitem b key))
       (filter (\<lambda>key. \<not> contains a key \<and> getitem b key > 0) (keys b))"

text \<open>
  Subtract: each key of \<open>a\<close> with \<open>a[key] - b[key]\<close> when that is positive; then each
  key of \<open>b\<close> absent from \<open>a\<close> with \<open>-b[key]\<close> when \<open>b[key]\<close> is negative.
\<close>

definition Subtract_spec :: "'k entries \<Rightarrow> 'k entries \<Rightarrow> 'k entries" where
  "Subtract_spec a b =
     map (\<lambda>key. (key, getitem a key - getitem b key))
       (filter (\<lambda>key. getitem a key - getitem b key > 0) (keys a))
     @ map (\<lambda>key. (key, - getitem b key))
       (filter (\<lambda>key. \<not> contains a key \<and> getitem b key < 0) (keys b))"

text \<open>
  Union: each key of \<open>a\<close> with \<open>max(a[key], b[key])\<close> when that is positive; then the
  keys of \<open>b\<close> absent from \<open>a\<close> whose count is positive.
\<close>

definition Union_spec :: "'k entries \<Rightarrow> 'k entries \<Rightarrow> 'k entries" where
  "Union_spec a b =
     map (\<lambda>key. (key, max (getitem a key) (getitem b key)))
       (filter (\<lambda>key. max (getitem a key) (getitem b key) > 0) (keys a))
     @ map (\<lambda>key. (key, getitem b key))
       (filter (\<lambda>key. \<not> contains a key \<and> getitem b key > 0) (keys b))"

text \<open>
  Intersect: the keys of \<open>a\<close> only, with \<open>min(a[key], b[key])\<close> when that is positive.
\<close>

definition Intersect_spec :: "'k entries \<Rightarrow> 'k entries \<Rightarrow> 'k entries" where
  "Intersect_spec a b =
     map (\<lambda>key. (key, min (getitem a key) (getitem b key)))
       (filter (\<lambda>key. min (getitem a key) (getitem b key) > 0) (keys a))"

text \<open>Positive: the entries with a positive count, in order.\<close>

definition Positive_spec :: "'k entries \<Rightarrow> 'k entries" where
  "Positive_spec a = filter (\<lambda>(key, count). count > 0) a"

text \<open>A counter all of whose counts are nonnegative.\<close>

definition nonnegative :: "'k entries \<Rightarrow> bool" where
  "nonnegative d = list_all (\<lambda>(key, count). count \<ge> 0) d"

text \<open>What a result keeps of a computed count: the count when it is positive.\<close>

definition positive_part :: "int \<Rightarrow> int option" where
  "positive_part v = (if v > 0 then Some v else None)"

section \<open>Mutation of a counter\<close>

text \<open>
  The class defines no mutator of its own: \<^verbatim>\<open>c[key] += delta\<close>, \<^verbatim>\<open>c[key] = n\<close> and
  \<^verbatim>\<open>del c[key]\<close> are those of \<open>Counter\<close> and \<open>OrderedDict\<close>. The augmented assignment
  reads \<open>c[key]\<close> (0 when the key is missing) and stores the sum.
\<close>

datatype 'k mutation =
    Increment 'k int
  | SetCount 'k int
  | Delete 'k

fun key_of :: "'k mutation \<Rightarrow> 'k" where
  "key_of (Increment k delta) = k"
| "key_of (SetCount k n) = k"
| "key_of (Delete k) = k"

fun is_Delete :: "'k mutation \<Rightarrow> bool" where
  "is_Delete (Delete k) = True"
| "is_Delete _ = False"

fun mutate :: "'k entries \<Rightarrow> 'k mutation \<Rightarrow> 'k entries" where
  "mutate d (Increment k delta) = setitem d k (getitem d k + delta)"
| "mutate d (SetCount k n) = setitem d k n"
| "mutate d (Delete k) = delitem d k"

definition mutate_all :: "'k entries \<Rightarrow> 'k mutation list \<Rightarrow> 'k entries" where
  "mutate_all d ms = fold (\<lambda>m d. mutate d m) ms d"

text \<open>The order in which the distinct elements of a sequence are first seen.\<close>

fun first_seen :: "'k list \<Rightarrow> 'k list" where
  "first_seen [] = []"
| "first_seen (k # ks) = k # removeAll k (first_seen ks)"

text \<open>
  The keys written by a sequence of mutations, leaving out every write that a later
  deletion of the same key undoes (and the deletions themselves).
\<close>

fun live_writes :: "'k mutation list \<Rightarrow> 'k list" where
  "live_writes [] = []"
| "live_writes (Delete k # ms) = live_writes ms"
| "live_writes (m # ms) =
     (if Delete (key_of m) \<in> set ms then live_writes ms else key_of m # live_writes ms)"

section \<open>The operators on a store of objects\<close>

text \<open>
  Objects live in a store and are named by references; a reference is valid when it is
  below the size of the store. \<^verbatim>\<open>self.__class__()\<close> allocates a new empty counter at
  the next free reference, and \<^verbatim>\<open>result[elem] = newcount\<close> writes to the object that
  \<open>result\<close> refers to. The loops read \<open>self\<close> and \<open>other\<close> through their references
  at every step.
\<close>

type_synonym ref = nat

type_synonym 'k heap = "'k pyobj list"

datatype returned =
    Ref ref
  | RNotImplemented
  | RTypeError

definition new_counter :: "'k heap \<Rightarrow> ref \<times> 'k heap" where
  "new_counter h = (length h, h @ [Counter []])"

definition heap_items :: "'k heap \<Rightarrow> ref \<Rightarrow> ('k \<times> int) list" where
  "heap_items h r = items (entries_of (h ! r))"

definition heap_getitem :: "'k heap \<Rightarrow> ref \<Rightarrow> 'k \<Rightarrow> int" where
  "heap_getitem h r k = getitem (entries_of (h ! r)) k"

definition heap_contains :: "'k heap \<Rightarrow> ref \<Rightarrow> 'k \<Rightarrow> bool" where
  "heap_contains h r k = contains (entries_of (h ! r)) k"

definition heap_setitem :: "'k heap \<Rightarrow> ref \<Rightarrow> 'k \<Rightarrow> int \<Rightarrow> 'k heap" where
  "heap_setitem h r k v = h[r := Counter (setitem (entries_of (h ! r)) k v)]"

text \<open>\<^verbatim>\<open>__add__\<close>\<close>

definition heap_add :: "'k heap \<Rightarrow> ref \<Rightarrow> ref \<Rightarrow> returned \<times> 'k heap" where
  "heap_add h self other =
     (if \<not> isinstance_Counter (h ! other) then (RNotImplemented, h)
      else
        let (result, h) = new_counter h;
            h = fold (\<lambda>(elem, count) h.
                  let newcount = count + heap_getitem h other elem
                  in if newcount > 0 then heap_setitem h result elem newcount else h)
                (heap_items h self) h;
            h = fold (\<lambda>(elem, count) h.
                  if \<not> heap_contains h self elem \<and> count > 0
                  then heap_setitem h result elem count else h)
                (heap_items h other) h
        in (Ref result, h))"

text \<open>\<^verbatim>\<open>__sub__\<close>\<close>

definition heap_sub :: "'k heap \<Rightarrow> ref \<Rightarrow> ref \<Rightarrow> returned \<times> 'k heap" where
  "heap_sub h self other =
     (if \<not> isinstance_Counter (h ! other) then (RNotImplemented, h)
      else
        let (result, h) = new_counter h;
            h = fold (\<lambda>(elem, count) h.
                  let newcount = count - heap_getitem h other elem
                  in if newcount > 0 then heap_setitem h result elem newcount else h)
                (heap_items h self) h;
            h = fold (\<lambda>(elem, count) h.
                  if \<not> heap_contains h self elem \<and> count < 0
                  then heap_setitem h result elem (0 - count) else h)
                (heap_items h other) h
        in (Ref result, h))"

text \<open>\<^verbatim>\<open>__or__\<close>\<close>

definition heap_or :: "'k heap \<Rightarrow> ref \<Rightarrow> ref \<Rightarrow> returned \<times> 'k heap" where
  "heap_or h self other =
     (if \<not> isinstance_Counter (h ! other) then (RNotImplemented, h)
      else
        let (result, h) = new_counter h;
            h = fold (\<lambda>(elem, count) h.
                  let other_count = heap_getitem h other elem;
                      newcount = (if count < other_count then other_count else count)
                  in if newcount > 0 then heap_setitem h result elem newcount else h)
                (heap_items h self) h;
            h = fold (\<lambda>(elem, count) h.
                  if \<not> heap_contains h self elem \<and> count > 0
                  then heap_setitem h result elem count else h)
                (heap_items h other) h
        in (Ref result, h))"

text \<open>\<^verbatim>\<open>__and__\<close>\<close>

definition heap_and :: "'k heap \<Rightarrow> ref \<Rightarrow> ref \<Rightarrow> returned \<times> 'k heap" where
  "heap_and h self other =
     (if \<not> isinstance_Counter (h ! other) then (RNotImplemented, h)
      else
        let (result, h) = new_counter h;
            h = fold (\<lambda>(elem, count) h.
                  let other_count = heap_getitem h other elem;
                      newcount = (if count < other_count then count else other_count)
                  in if newcount > 0 then heap_setitem h result elem newcount else h)
                (heap_items h self) h
        in (Ref result, h))"

text \<open>
  The binary \<^verbatim>\<open>-\<close> on two returned values: \<open>__sub__\<close> of the left one when both are
  objects.
\<close>

fun heap_binary_minus :: "'k heap \<Rightarrow> returned \<Rightarrow> returned \<Rightarrow> returned \<times> 'k heap" where
  "heap_binary_minus h (Ref l) (Ref r) =
     (case heap_sub h l r of (RNotImplemented, h') \<Rightarrow> (RTypeError, h') | res \<Rightarrow> res)"
| "heap_binary_minus h _ _ = (RTypeError, h)"

text \<open>\<^verbatim>\<open>__xor__\<close>: the union is computed first, then the intersection, then the difference.\<close>

definition heap_xor :: "'k heap \<Rightarrow> ref \<Rightarrow> ref \<Rightarrow> returned \<times> 'k heap" where
  "heap_xor h self other =
     (if \<not> isinstance_Counter (h ! other) then (RNotImplemented, h)
      else
        let (u, h) = heap_or h self other;
            (i, h) = heap_and h self other
        in heap_binary_minus h u i)"

text \<open>\<^verbatim>\<open>__pos__\<close>\<close>

definition heap_pos :: "'k heap \<Rightarrow> ref \<Rightarrow> returned \<times> 'k heap" where
  "heap_pos h self =
     (let (result, h) = new_counter h;
          h = fold (\<lambda>(elem, count) h.
                if count > 0 then heap_setitem h result elem count else h)
              (heap_items h self) h
      in (Ref result, h))"

text \<open>\<^verbatim>\<open>__neg__\<close>\<close>

definition heap_neg :: "'k heap \<Rightarrow> ref \<Rightarrow> returned \<times> 'k heap" where
  "heap_neg h self =
     (let (result, h) = new_counter h;
          h = fold (\<lambda>(elem, count) h.
                if count < 0 then heap_setitem h result elem (0 - count) else h)
              (heap_items h self) h
      in (Ref result, h))"

text \<open>
  Every object of the store \<open>h\<close> is the same object, unchanged, in the store \<open>h'\<close>.
\<close>

definition unchanged :: "'k heap \<Rightarrow> 'k heap \<Rightarrow> bool" where
  "unchanged h h' = (take (length h) h' = h)"

text \<open>
  The returned value is a reference to an object of \<open>h'\<close> that \<open>h\<close> did not have, and
  that object is a counter.
\<close>

fun fresh :: "'k heap \<Rightarrow> returned \<times> 'k heap \<Rightarrow> bool" where
  "fresh h (Ref r, h') = (length h \<le> r \<and> r < length h' \<and> isinstance_Counter (h' ! r))"
| "fresh h _ = False"

text \<open>
  The store after a call still holds every object it held before, unchanged, and in
  particular the receiver and the operand.
\<close>

definition operands_kept :: "'k heap \<Rightarrow> ref \<Rightarrow> ref \<Rightarrow> returned \<times> 'k heap \<Rightarrow> bool" where
  "operands_kept h self other res =
     (unchanged h (snd res) \<and> snd res ! self = h ! self \<and> snd res ! other = h ! other)"

section \<open>Facts about the dictionary protocol\<close>

lemma keys_setitem:
  "keys (setitem d k v) = (if k \<in> set (keys d) then keys d else keys d @ [k])"
  by (induction d) (force simp: keys_def)+

lemma setitem_new: "k \<notin> set (keys d) \<Longrightarrow> setitem d k v = d @ [(k, v)]"
  by (induction d) (auto simp: keys_def)

text \<open>
  A loop that stores a value for some of the pairs of a dictionary, none of them under a
  key the result already holds, appends the stored pairs in order.
\<close>

lemma fold_setitem_append:
  assumes "distinct (keys xs)"
    and "\<And>k c. (k, c) \<in> set xs \<Longrightarrow> P k c \<Longrightarrow> k \<notin> set (keys acc)"
  shows "fold (\<lambda>(k, c) r. if P k c then setitem r k (f k c) else r) xs acc
         = acc @ map (\<lambda>(k, c). (k, f k c)) (filter (\<lambda>(k, c). P k c) xs)"
  using assms
proof (induction xs arbitrary: acc)
  case Nil
  then show ?case by simp
next
  case (Cons x xs)
  obtain k c where x: "x = (k, c)" by (cases x)
  from Cons.prems(1) have d: "distinct (keys xs)" and kx: "k \<notin> set (keys xs)"
    by (auto simp: x keys_def)
  show ?case
  proof (cases "P k c")
    case True
    with Cons.prems(2) [of k c] have fresh: "k \<notin> set (keys acc)"
      by (simp add: x)
    have "k' \<notin> set (keys (acc @ [(k, f k c)]))" if "(k', c') \<in> set xs" "P k' c'" for k' c'
    proof -
      from that Cons.prems(2) [of k' c'] have "k' \<notin> set (keys acc)" by simp
      moreover from that(1) kx have "k' \<noteq> k" by (force simp: keys_def)
      ultimately show ?thesis by (simp add: keys_def)
    qed
    from Cons.IH [OF d this] True fresh show ?thesis
      by (simp add: x setitem_new)
  next
    case False
    have "k' \<notin> set (keys acc)" if "(k', c') \<in> set xs" "P k' c'" for k' c'
      using that Cons.prems(2) [of k' c'] by simp
    from Cons.IH [OF d this] False show ?thesis by (simp add: x)
  qed
qed

lemma keys_stored:
  "set (keys (map (\<lambda>(k, c). (k, f k c)) (filter Q xs))) \<subseteq> set (keys xs)"
  by (force simp: keys_def)

text \<open>The two loops of \<open>__add__\<close>, \<open>__sub__\<close> and \<open>__or__\<close>, one after the other.\<close>

lemma two_loops:
  assumes "distinct (keys a)" and "distinct (keys b)"
  shows "fold (\<lambda>(k, c) r. if \<not> contains a k \<and> Q c then setitem r k (g c) else r) b
           (fold (\<lambda>(k, c) r. if P k c then setitem r k (f k c) else r) a [])
         = map (\<lambda>(k, c). (k, f k c)) (filter (\<lambda>(k, c). P k c) a)
           @ map (\<lambda>(k, c). (k, g c)) (filter (\<lambda>(k, c). \<not> contains a k \<and> Q c) b)"
proof -
  let ?r = "map (\<lambda>(k, c). (k, f k c)) (filter (\<lambda>(k, c). P k c) a)"
  have one: "fold (\<lambda>(k, c) r. if P k c then setitem r k (f k c) else r) a [] = ?r"
    using fold_setitem_append [OF assms(1), of P "[]" f] by (simp add: keys_def)
  have "k \<notin> set (keys ?r)" if "\<not> contains a k \<and> Q c" for k c
    using that keys_stored [of f "\<lambda>(k, c). P k c" a] by (auto simp: contains_def)
  then have "fold (\<lambda>(k, c) r. if \<not> contains a k \<and> Q c then setitem r k (g c) else r) b ?r
      = ?r @ map (\<lambda>(k, c). (k, g c)) (filter (\<lambda>(k, c). \<not> contains a k \<and> Q c) b)"
    by (intro fold_setitem_append [OF assms(2)])
  with one show ?thesis by simp
qed

lemma one_loop:
  assumes "distinct (keys a)"
  shows "fold (\<lambda>(k, c) r. if P k c then setitem r k (f k c) else r) a []
         = map (\<lambda>(k, c). (k, f k c)) (filter (\<lambda>(k, c). P k c) a)"
  using fold_setitem_append [OF assms, of P "[]" f] by (simp add: keys_def)

lemma getitem_member: "distinct (keys d) \<Longrightarrow> (k, c) \<in> set d \<Longrightarrow> getitem d k = c"
  by (simp add: getitem_def keys_def)

text \<open>In a well-formed dictionary the count paired with a key is the count looked up.\<close>

lemma by_key:
  assumes "distinct (keys d)"
  shows "map (\<lambda>(k, c). (k, f k c)) (filter (\<lambda>(k, c). P k c) d)
       = map (\<lambda>k. (k, f k (getitem d k))) (filter (\<lambda>k. P k (getitem d k)) (keys d))"
proof -
  have "filter (\<lambda>k. P k (getitem d k)) (keys d) = map fst (filter (\<lambda>(k, c). P k c) d)"
    unfolding keys_def filter_map
    by (rule arg_cong [where f = "map fst"], rule filter_cong)
       (auto simp: getitem_member [OF assms])
  moreover have "map ((\<lambda>k. (k, f k (getitem d k))) \<circ> fst) (filter (\<lambda>(k, c). P k c) d)
       = map (\<lambda>(k, c). (k, f k c)) (filter (\<lambda>(k, c). P k c) d)"
    by (rule map_cong) (auto simp: getitem_member [OF assms])
  ultimately show ?thesis by simp
qed

section \<open>The binary operators compute what the specification says\<close>

lemma add_is_Add_spec:
  assumes "wf_entries a" and "wf_entries b"
  shows "OrderedCounter_add a (Counter b) = Result (Add_spec a b)"
proof -
  from assms have da: "distinct (keys a)" and db: "distinct (keys b)"
    by (simp_all add: wf_entries_def)
  have "OrderedCounter_add a (Counter b) = Result (
     map (\<lambda>(k, c). (k, c + getitem b k)) (filter (\<lambda>(k, c). c + getitem b k > 0) a)
   @ map (\<lambda>(k, c). (k, c)) (filter (\<lambda>(k, c). \<not> contains a k \<and> c > 0) b))"
    using two_loops [OF da db, of "\<lambda>c. c > 0" "\<lambda>c. c"
        "\<lambda>k c. c + getitem b k > 0" "\<lambda>k c. c + getitem b k"]
    by (simp add: OrderedCounter_add_def items_def Let_def)
  also have "\<dots> = Result (Add_spec a b)"
    unfolding Add_spec_def
    using by_key [OF da, of "\<lambda>k c. c + getitem b k" "\<lambda>k c. c + getitem b k > 0"]
      by_key [OF db, of "\<lambda>k c. c" "\<lambda>k c. \<not> contains a k \<and> c > 0"]
    by simp
  finally show ?thesis .
qed

lemma sub_is_Subtract_spec:
  assumes "wf_entries a" and "wf_entries b"
  shows "OrderedCounter_sub a (Counter b) = Result (Subtract_spec a b)"
proof -
  from assms have da: "distinct (keys a)" and db: "distinct (keys b)"
    by (simp_all add: wf_entries_def)
  have "OrderedCounter_sub a (Counter b) = Result (
     map (\<lambda>(k, c). (k, c - getitem b k)) (filter (\<lambda>(k, c). c - getitem b k > 0) a)
   @ map (\<lambda>(k, c). (k, 0 - c)) (filter (\<lambda>(k, c). \<not> contains a k \<and> c < 0) b))"
    using two_loops [OF da db, of "\<lambda>c. c < 0" "\<lambda>c. 0 - c"
        "\<lambda>k c. c - getitem b k > 0" "\<lambda>k c. c - getitem b k"]
    by (simp add: OrderedCounter_sub_def items_def Let_def)
  also have "\<dots> = Result (Subtract_spec a b)"
    unfolding Subtract_spec_def
    using by_key [OF da, of "\<lambda>k c. c - getitem b k" "\<lambda>k c. c - getitem b k > 0"]
      by_key [OF db, of "\<lambda>k c. 0 - c" "\<lambda>k c. \<not> contains a k \<and> c < 0"]
    by simp
  finally show ?thesis .
qed

lemma or_is_Union_spec:
  assumes "wf_entries a" and "wf_entries b"
  shows "OrderedCounter_or a (Counter b) = Result (Union_spec a b)"
proof -
  from assms have da: "distinct (keys a)" and db: "distinct (keys b)"
    by (simp_all add: wf_entries_def)
  have m: "(if c < d then d else c) = max c d" for c d :: int
    by (simp add: max_def)
  have "OrderedCounter_or a (Counter b) = Result (
     map (\<lambda>(k, c). (k, max c (getitem b k))) (filter (\<lambda>(k, c). max c (getitem b k) > 0) a)
   @ map (\<lambda>(k, c). (k, c)) (filter (\<lambda>(k, c). \<not> contains a k \<and> c > 0) b))"
    using two_loops [OF da db, of "\<lambda>c. c > 0" "\<lambda>c. c"
        "\<lambda>k c. max c (getitem b k) > 0" "\<lambda>k c. max c (getitem b k)"]
    by (simp add: OrderedCounter_or_def items_def Let_def m)
  also have "\<dots> = Result (Union_spec a b)"
    unfolding Union_spec_def
    using by_key [OF da, of "\<lambda>k c. max c (getitem b k)" "\<lambda>k c. max c (getitem b k) > 0"]
      by_key [OF db, of "\<lambda>k c. c" "\<lambda>k c. \<not> contains a k \<and> c > 0"]
    by simp
  finally show ?thesis .
qed

lemma and_is_Intersect_spec:
  assumes "wf_entries a"
  shows "OrderedCounter_and a (Counter b) = Result (Intersect_spec a b)"
proof -
  from assms have da: "distinct (keys a)"
    by (simp add: wf_entries_def)
  have m: "(if c < d then c else d) = min c d" for c d :: int
    by (simp add: min_def)
  have "OrderedCounter_and a (Counter b) = Result (
     map (\<lambda>(k, c). (k, min c (getitem b k))) (filter (\<lambda>(k, c). min c (getitem b k) > 0) a))"
    using one_loop [OF da, of "\<lambda>k c. min c (getitem b k) > 0" "\<lambda>k c. min c (getitem b k)"]
    by (simp add: OrderedCounter_and_def items_def Let_def m)
  also have "\<dots> = Result (Intersect_spec a b)"
    unfolding Intersect_spec_def
    using by_key [OF da, of "\<lambda>k c. min c (getitem b k)" "\<lambda>k c. min c (getitem b k) > 0"]
    by simp
  finally show ?thesis .
qed

lemma pos_is_Positive_spec:
  assumes "wf_entries a"
  shows "OrderedCounter_pos a = Positive_spec a"
proof -
  from assms have da: "distinct (keys a)"
    by (simp add: wf_entries_def)
  have "map (\<lambda>(k, c). (k, c)) xs = xs" for xs :: "'a entries"
    by (induction xs) auto
  with one_loop [OF da, of "\<lambda>k c. c > 0" "\<lambda>k c. c"] show ?thesis
    by (simp add: OrderedCounter_pos_def Positive_spec_def items_def)
qed

text \<open>
  C1. For well-formed counters \<open>a\<close> and \<open>b\<close>, \<open>a + b\<close> holds each key of \<open>a\<close>, in \<open>a\<close>'s
  order, with the count \<open>a[key] + b[key]\<close> exactly when that sum is positive, followed by
  each key of \<open>b\<close> that is absent from \<open>a\<close>, in \<open>b\<close>'s order, with \<open>b[key]\<close> exactly when
  it is positive; and the counters of the strings \<open>abbbd\<close> and \<open>bcc\<close> add up to
  \<open>[(a,1), (b,4), (d,1), (c,2)]\<close>.
\<close>

theorem add_entries:
  "(wf_entries a \<and> wf_entries b \<longrightarrow> OrderedCounter_add a (Counter b) = Result (Add_spec a b))
   \<and> OrderedCounter_add (OrderedCounter_of_iterable ''abbbd'')
         (Counter (OrderedCounter_of_iterable ''bcc''))
       = Result [(CHR ''a'', 1), (CHR ''b'', 4), (CHR ''d'', 1), (CHR ''c'', 2)]"
proof
  show "wf_entries a \<and> wf_entries b \<longrightarrow> OrderedCounter_add a (Counter b) = Result (Add_spec a b)"
    by (simp add: add_is_Add_spec)
  show "OrderedCounter_add (OrderedCounter_of_iterable ''abbbd'')
         (Counter (OrderedCounter_of_iterable ''bcc''))
       = Result [(CHR ''a'', 1), (CHR ''b'', 4), (CHR ''d'', 1), (CHR ''c'', 2)]"
    by (simp add: OrderedCounter_add_def OrderedCounter_of_iterable_def count_elements_def
        dict_get_def getitem_def items_def contains_def keys_def)
qed

theorem add_entries_witness:
  "wf_entries [(CHR ''x'', 2), (CHR ''y'', -1), (CHR ''z'', -3)]
   \<and> wf_entries [(CHR ''y'', 3), (CHR ''u'', 1), (CHR ''v'', -2), (CHR ''z'', 1)]
   \<and> OrderedCounter_add [(CHR ''x'', 2), (CHR ''y'', -1), (CHR ''z'', -3)]
        (Counter [(CHR ''y'', 3), (CHR ''u'', 1), (CHR ''v'', -2), (CHR ''z'', 1)])
      = Result [(CHR ''x'', 2), (CHR ''y'', 2), (CHR ''u'', 1)]"
  using add_entries [of "[(CHR ''x'', 2), (CHR ''y'', -1), (CHR ''z'', -3)]"
      "[(CHR ''y'', 3), (CHR ''u'', 1), (CHR ''v'', -2), (CHR ''z'', 1)]"]
  by (simp add: wf_entries_def keys_def Add_spec_def getitem_def contains_def)

text \<open>
  C2. For well-formed counters \<open>a\<close> and \<open>b\<close>, \<open>a - b\<close> holds each key of \<open>a\<close>, in \<open>a\<close>'s
  order, with \<open>a[key] - b[key]\<close> exactly when that difference is positive, followed by
  each key of \<open>b\<close> absent from \<open>a\<close>, in \<open>b\<close>'s order, with \<open>-b[key]\<close> exactly when
  \<open>b[key]\<close> is negative; and the counters of \<open>abbbc\<close> and \<open>bccd\<close> subtract to
  \<open>[(a,1), (b,2)]\<close>.
\<close>

theorem sub_entries:
  "(wf_entries a \<and> wf_entries b
      \<longrightarrow> OrderedCounter_sub a (Counter b) = Result (Subtract_spec a b))
   \<and> OrderedCounter_sub (OrderedCounter_of_iterable ''abbbc'')
         (Counter (OrderedCounter_of_iterable ''bccd''))
       = Result [(CHR ''a'', 1), (CHR ''b'', 2)]"
proof
  show "wf_entries a \<and> wf_entries b
      \<longrightarrow> OrderedCounter_sub a (Counter b) = Result (Subtract_spec a b)"
    by (simp add: sub_is_Subtract_spec)
  show "OrderedCounter_sub (OrderedCounter_of_iterable ''abbbc'')
         (Counter (OrderedCounter_of_iterable ''bccd''))
       = Result [(CHR ''a'', 1), (CHR ''b'', 2)]"
    by (simp add: OrderedCounter_sub_def OrderedCounter_of_iterable_def count_elements_def
        dict_get_def getitem_def items_def contains_def keys_def)
qed

theorem sub_entries_witness:
  "wf_entries [(CHR ''x'', 2), (CHR ''y'', 5), (CHR ''z'', -3)]
   \<and> wf_entries [(CHR ''y'', 3), (CHR ''u'', 1), (CHR ''v'', -2), (CHR ''z'', 1)]
   \<and> OrderedCounter_sub [(CHR ''x'', 2), (CHR ''y'', 5), (CHR ''z'', -3)]
        (Counter [(CHR ''y'', 3), (CHR ''u'', 1), (CHR ''v'', -2), (CHR ''z'', 1)])
      = Result [(CHR ''x'', 2), (CHR ''y'', 2), (CHR ''v'', 2)]"
  using sub_entries [of "[(CHR ''x'', 2), (CHR ''y'', 5), (CHR ''z'', -3)]"
      "[(CHR ''y'', 3), (CHR ''u'', 1), (CHR ''v'', -2), (CHR ''z'', 1)]"]
  by (simp add: wf_entries_def keys_def Subtract_spec_def getitem_def contains_def)

text \<open>
  C3. For a well-formed counter \<open>a\<close> and any counter \<open>b\<close>, \<open>a & b\<close> goes over the keys of
  \<open>a\<close> only, in \<open>a\<close>'s order, and holds each with \<open>min(a[key], b[key])\<close> exactly when that
  minimum is positive; a key that is not in \<open>a\<close> is not in the result, whatever count
  \<open>b\<close> gives it.
\<close>

theorem and_entries:
  "wf_entries a \<longrightarrow>
     OrderedCounter_and a (Counter b) = Result (Intersect_spec a b)
     \<and> (\<forall>key. \<not> contains a key \<longrightarrow> \<not> contains (Intersect_spec a b) key)"
proof
  assume wf: "wf_entries a"
  have "\<not> contains (Intersect_spec a b) key" if "\<not> contains a key" for key
    using that by (auto simp: contains_def Intersect_spec_def keys_def)
  with and_is_Intersect_spec [OF wf, of b]
  show "OrderedCounter_and a (Counter b) = Result (Intersect_spec a b)
     \<and> (\<forall>key. \<not> contains a key \<longrightarrow> \<not> contains (Intersect_spec a b) key)"
    by simp
qed

theorem and_entries_witness:
  "wf_entries [(CHR ''x'', 2), (CHR ''y'', 5), (CHR ''z'', -3)]
   \<and> OrderedCounter_and [(CHR ''x'', 2), (CHR ''y'', 5), (CHR ''z'', -3)]
        (Counter [(CHR ''v'', -2), (CHR ''y'', 3), (CHR ''z'', 1)])
      = Result [(CHR ''y'', 3)]
   \<and> \<not> contains [(CHR ''x'', 2), (CHR ''y'', 5), (CHR ''z'', -3)] (CHR ''v'')
   \<and> \<not> contains [(CHR ''y'', 3)] (CHR ''v'')"
  using and_entries [of "[(CHR ''x'', 2), (CHR ''y'', 5), (CHR ''z'', -3)]"
      "[(CHR ''v'', -2), (CHR ''y'', 3), (CHR ''z'', 1)]"]
  by (simp add: wf_entries_def keys_def Intersect_spec_def getitem_def contains_def)

section \<open>Symmetric difference and the type check\<close>

lemma or_returns: "\<exists>u. OrderedCounter_or a (Counter b) = Result u"
  by (simp add: OrderedCounter_or_def Let_def)

lemma and_returns: "\<exists>i. OrderedCounter_and a (Counter b) = Result i"
  by (simp add: OrderedCounter_and_def Let_def)

lemma sub_returns: "\<exists>r. OrderedCounter_sub a (Counter b) = Result r"
  by (simp add: OrderedCounter_sub_def Let_def)

lemma add_returns: "\<exists>r. OrderedCounter_add a (Counter b) = Result r"
  by (simp add: OrderedCounter_add_def Let_def)

lemma xor_unfold:
  assumes "OrderedCounter_or a (Counter b) = Result u"
    and "OrderedCounter_and a (Counter b) = Result i"
  shows "OrderedCounter_xor a (Counter b) = OrderedCounter_sub u (Counter i)"
proof -
  obtain r where "OrderedCounter_sub u (Counter i) = Result r"
    using sub_returns by blast
  with assms show ?thesis by (simp add: OrderedCounter_xor_def)
qed

lemma xor_returns: "\<exists>r. OrderedCounter_xor a (Counter b) = Result r"
proof -
  obtain u i where u: "OrderedCounter_or a (Counter b) = Result u"
    and i: "OrderedCounter_and a (Counter b) = Result i"
    using or_returns and_returns by blast
  from xor_unfold [OF u i] sub_returns [of u i] show ?thesis by simp
qed

text \<open>
  C4. For all counters \<open>a\<close> and \<open>b\<close>, \<open>a | b\<close> and \<open>a & b\<close> return counters and \<open>a ^ b\<close>
  is the result of subtracting the second from the first with \<open>__sub__\<close>; the counters
  of the strings \<open>abbbc\<close> and \<open>bcc\<close> give \<open>[(a,1), (b,2), (c,1)]\<close>.
\<close>

theorem xor_is_or_minus_and:
  "(\<exists>u i. OrderedCounter_or a (Counter b) = Result u
        \<and> OrderedCounter_and a (Counter b) = Result i
        \<and> OrderedCounter_xor a (Counter b) = OrderedCounter_sub u (Counter i))
   \<and> OrderedCounter_xor (OrderedCounter_of_iterable ''abbbc'')
         (Counter (OrderedCounter_of_iterable ''bcc''))
       = Result [(CHR ''a'', 1), (CHR ''b'', 2), (CHR ''c'', 1)]"
proof
  obtain u i where u: "OrderedCounter_or a (Counter b) = Result u"
    and i: "OrderedCounter_and a (Counter b) = Result i"
    using or_returns and_returns by blast
  with xor_unfold [OF u i]
  show "\<exists>u i. OrderedCounter_or a (Counter b) = Result u
        \<and> OrderedCounter_and a (Counter b) = Result i
        \<and> OrderedCounter_xor a (Counter b) = OrderedCounter_sub u (Counter i)"
    by blast
  show "OrderedCounter_xor (OrderedCounter_of_iterable ''abbbc'')
         (Counter (OrderedCounter_of_iterable ''bcc''))
       = Result [(CHR ''a'', 1), (CHR ''b'', 2), (CHR ''c'', 1)]"
    by (simp add: OrderedCounter_xor_def OrderedCounter_or_def OrderedCounter_and_def
        OrderedCounter_sub_def OrderedCounter_of_iterable_def count_elements_def
        dict_get_def getitem_def items_def contains_def keys_def)
qed

lemma not_counter_NotImplemented:
  assumes "\<not> isinstance_Counter other"
  shows "OrderedCounter_add self other = NotImplemented"
    and "OrderedCounter_sub self other = NotImplemented"
    and "OrderedCounter_or self other = NotImplemented"
    and "OrderedCounter_and self other = NotImplemented"
    and "OrderedCounter_xor self other = NotImplemented"
  using assms
  by (simp_all add: OrderedCounter_add_def OrderedCounter_sub_def OrderedCounter_or_def
      OrderedCounter_and_def OrderedCounter_xor_def)

text \<open>
  C5. Each of \<open>__add__\<close>, \<open>__sub__\<close>, \<open>__or__\<close>, \<open>__and__\<close> and \<open>__xor__\<close> returns
  \<open>NotImplemented\<close> exactly when the operand is not an instance of \<open>Counter\<close> (the
  objects without the lookup of a count by key, which \<open>Counter\<close> provides), and then
  nothing else is returned; for every operand that is a counter each of them returns a
  counter.
\<close>

theorem NotImplemented_iff_not_Counter:
  "(OrderedCounter_add self other = NotImplemented) = (\<not> isinstance_Counter other)
   \<and> (OrderedCounter_sub self other = NotImplemented) = (\<not> isinstance_Counter other)
   \<and> (OrderedCounter_or self other = NotImplemented) = (\<not> isinstance_Counter other)
   \<and> (OrderedCounter_and self other = NotImplemented) = (\<not> isinstance_Counter other)
   \<and> (OrderedCounter_xor self other = NotImplemented) = (\<not> isinstance_Counter other)
   \<and> (isinstance_Counter other \<longrightarrow>
        (\<exists>r. OrderedCounter_add self other = Result r)
      \<and> (\<exists>r. OrderedCounter_sub self other = Result r)
      \<and> (\<exists>r. OrderedCounter_or self other = Result r)
      \<and> (\<exists>r. OrderedCounter_and self other = Result r)
      \<and> (\<exists>r. OrderedCounter_xor self other = Result r))"
proof (cases "isinstance_Counter other")
  case True
  then obtain b where b: "other = Counter b"
    by (cases other) simp_all
  obtain r1 r2 r3 r4 r5 where
    "OrderedCounter_add self other = Result r1" "OrderedCounter_sub self other = Result r2"
    "OrderedCounter_or self other = Result r3" "OrderedCounter_and self other = Result r4"
    "OrderedCounter_xor self other = Result r5"
    unfolding b using add_returns sub_returns or_returns and_returns xor_returns by metis
  with True show ?thesis by simp
next
  case False
  with not_counter_NotImplemented [OF False, of self] show ?thesis by simp
qed

theorem NotImplemented_iff_not_Counter_witness:
  "isinstance_Counter (Counter [(CHR ''b'', 1), (CHR ''c'', 2)])
   \<and> OrderedCounter_add [(CHR ''a'', 1), (CHR ''b'', 3)] (Counter [(CHR ''b'', 1), (CHR ''c'', 2)])
       = Result [(CHR ''a'', 1), (CHR ''b'', 4), (CHR ''c'', 2)]
   \<and> OrderedCounter_xor [(CHR ''a'', 1), (CHR ''b'', 3)] (Counter [(CHR ''b'', 1), (CHR ''c'', 2)])
       = Result [(CHR ''a'', 1), (CHR ''b'', 2), (CHR ''c'', 2)]
   \<and> \<not> isinstance_Counter (PyDict [(CHR ''b'', 1), (CHR ''c'', 2)])
   \<and> OrderedCounter_add [(CHR ''a'', 1), (CHR ''b'', 3)] (PyDict [(CHR ''b'', 1), (CHR ''c'', 2)])
       = NotImplemented
   \<and> OrderedCounter_xor [(CHR ''a'', 1), (CHR ''b'', 3)] (PyDict [(CHR ''b'', 1), (CHR ''c'', 2)])
       = NotImplemented"
  using NotImplemented_iff_not_Counter [of "[(CHR ''a'', 1), (CHR ''b'', 3)]"
      "Counter [(CHR ''b'', 1), (CHR ''c'', 2)]"]
    NotImplemented_iff_not_Counter [of "[(CHR ''a'', 1), (CHR ''b'', 3)]"
      "PyDict [(CHR ''b'', 1), (CHR ''c'', 2)]"]
  by (simp add: OrderedCounter_xor_def OrderedCounter_or_def OrderedCounter_and_def
        OrderedCounter_sub_def OrderedCounter_add_def
        getitem_def items_def contains_def keys_def)

lemma dict_update_fresh:
  assumes "distinct (keys d)"
  shows "dict_update [] d = d"
proof -
  have "fold (\<lambda>(k, c) r. if True then setitem r k c else r) d [] 
      = [] @ map (\<lambda>(k, c). (k, c)) (filter (\<lambda>(k, c). True) d)"
    by (rule fold_setitem_append [OF assms]) (simp add: keys_def)
  then show ?thesis by (simp add: dict_update_def items_def)
qed

section \<open>Serialisation\<close>

text \<open>
  C6. For every well-formed counter, calling the class that \<open>__reduce__\<close> returns on the
  argument it returns gives back the same entries in the same order; the ordered pairs
  shown by \<open>__repr__\<close>, after the class name, are those entries as well, and the
  class called on them gives back the counter.
\<close>

theorem reduce_roundtrip:
  "wf_entries a \<longrightarrow>
     reconstruct (OrderedCounter_reduce a) = a
     \<and> OrderedCounter_repr a = (''OrderedCounter'', a)
     \<and> OrderedCounter_of_mapping (snd (OrderedCounter_repr a)) = a"
  by (simp add: OrderedCounter_reduce_def OrderedCounter_repr_def OrderedDict_of_def
      OrderedCounter_of_mapping_def dict_update_fresh wf_entries_def)

theorem reduce_roundtrip_witness:
  "wf_entries [(CHR ''x'', 2), (CHR ''y'', 0), (CHR ''z'', -3)]
   \<and> OrderedCounter_reduce [(CHR ''x'', 2), (CHR ''y'', 0), (CHR ''z'', -3)]
       = (OrderedCounter_cls, [(CHR ''x'', 2), (CHR ''y'', 0), (CHR ''z'', -3)])
   \<and> reconstruct (OrderedCounter_cls, [(CHR ''x'', 2), (CHR ''y'', 0), (CHR ''z'', -3)])
       = [(CHR ''x'', 2), (CHR ''y'', 0), (CHR ''z'', -3)]"
  using reduce_roundtrip [of "[(CHR ''x'', 2), (CHR ''y'', 0), (CHR ''z'', -3)]"]
  by (simp add: wf_entries_def keys_def OrderedCounter_reduce_def OrderedDict_of_def
      OrderedCounter_of_mapping_def dict_update_def items_def)

section \<open>Adding the empty counter\<close>

text \<open>
  C8. For every counter \<open>a\<close>, \<open>a + OrderedCounter()\<close> has the entries of \<open>+a\<close> in the
  same order, and for a well-formed \<open>a\<close> these are the entries of \<open>a\<close> with a positive
  count, in \<open>a\<close>'s order.
\<close>

theorem add_empty_is_pos:
  "OrderedCounter_add a (Counter []) = Result (OrderedCounter_pos a)
   \<and> (wf_entries a \<longrightarrow> OrderedCounter_pos a = Positive_spec a)"
proof
  show "OrderedCounter_add a (Counter []) = Result (OrderedCounter_pos a)"
    by (simp add: OrderedCounter_add_def OrderedCounter_pos_def items_def getitem_def)
  show "wf_entries a \<longrightarrow> OrderedCounter_pos a = Positive_spec a"
    by (simp add: pos_is_Positive_spec)
qed

theorem add_empty_is_pos_witness:
  "wf_entries [(CHR ''x'', 2), (CHR ''y'', 0), (CHR ''z'', -3), (CHR ''w'', 1)]
   \<and> OrderedCounter_add [(CHR ''x'', 2), (CHR ''y'', 0), (CHR ''z'', -3), (CHR ''w'', 1)]
        (Counter []) = Result [(CHR ''x'', 2), (CHR ''w'', 1)]
   \<and> OrderedCounter_pos [(CHR ''x'', 2), (CHR ''y'', 0), (CHR ''z'', -3), (CHR ''w'', 1)]
       = [(CHR ''x'', 2), (CHR ''w'', 1)]"
  using add_empty_is_pos [of "[(CHR ''x'', 2), (CHR ''y'', 0), (CHR ''z'', -3), (CHR ''w'', 1)]"]
  by (simp add: wf_entries_def keys_def Positive_spec_def)

section \<open>Union as intersection plus symmetric difference\<close>

lemma map_of_graph: "map_of (map (\<lambda>k. (k, f k)) ks) k = (if k \<in> set ks then Some (f k) else None)"
  by (induction ks) auto

lemma keys_graph: "keys (map (\<lambda>k. (k, f k)) ks) = ks"
  by (simp add: keys_def comp_def)

lemma map_of_two_parts:
  "map_of (map (\<lambda>k. (k, f k)) (filter P (keys a))
          @ map (\<lambda>k. (k, g k)) (filter (\<lambda>k. \<not> contains a k \<and> Q k) (keys b))) k
   = (if contains a k then (if P k then Some (f k) else None)
      else if contains b k \<and> Q k then Some (g k) else None)"
  by (auto simp: map_add_def map_of_graph contains_def)

lemma wf_two_parts:
  assumes "wf_entries a" and "wf_entries b"
  shows "wf_entries (map (\<lambda>k. (k, f k)) (filter P (keys a))
          @ map (\<lambda>k. (k, g k)) (filter (\<lambda>k. \<not> contains a k \<and> Q k) (keys b)))"
  using assms by (auto simp: wf_entries_def keys_def comp_def contains_def)

lemma getitem_absent: "\<not> contains d k \<Longrightarrow> getitem d k = 0"
  using map_of_eq_None_iff [of d k]
  by (auto simp: getitem_def contains_def keys_def split: option.splits)

lemma getitem_positive_part:
  "map_of d k = positive_part v \<Longrightarrow> getitem d k = max 0 v"
  by (simp add: getitem_def positive_part_def)

lemma map_of_Add_spec:
  "map_of (Add_spec a b) k = positive_part (getitem a k + getitem b k)"
  unfolding Add_spec_def map_of_two_parts positive_part_def
  using getitem_absent [of a k] getitem_absent [of b k] by auto

lemma map_of_Subtract_spec:
  "map_of (Subtract_spec a b) k = positive_part (getitem a k - getitem b k)"
  unfolding Subtract_spec_def map_of_two_parts positive_part_def
  using getitem_absent [of a k] getitem_absent [of b k] by auto

lemma map_of_Union_spec:
  "map_of (Union_spec a b) k = positive_part (max (getitem a k) (getitem b k))"
  unfolding Union_spec_def map_of_two_parts positive_part_def
  using getitem_absent [of a k] getitem_absent [of b k] by auto

lemma map_of_Intersect_spec:
  "map_of (Intersect_spec a b) k = positive_part (min (getitem a k) (getitem b k))"
  unfolding Intersect_spec_def map_of_graph positive_part_def
  using getitem_absent [of a k] by (auto simp: contains_def)

lemma wf_specs:
  assumes "wf_entries a" and "wf_entries b"
  shows "wf_entries (Add_spec a b)" and "wf_entries (Subtract_spec a b)"
    and "wf_entries (Union_spec a b)" and "wf_entries (Intersect_spec a b)"
  unfolding Add_spec_def Subtract_spec_def Union_spec_def Intersect_spec_def
  using assms wf_two_parts [OF assms]
  by (auto simp: wf_entries_def keys_graph)

lemma union_content:
  assumes "wf_entries a" and "wf_entries b"
  shows "\<exists>u i x r. OrderedCounter_or a (Counter b) = Result u
          \<and> OrderedCounter_and a (Counter b) = Result i
          \<and> OrderedCounter_xor a (Counter b) = Result x
          \<and> OrderedCounter_add i (Counter x) = Result r
          \<and> map_of u = map_of r"
proof -
  let ?u = "Union_spec a b" and ?i = "Intersect_spec a b"
  let ?x = "Subtract_spec ?u ?i"
  let ?r = "Add_spec ?i ?x"
  have u: "OrderedCounter_or a (Counter b) = Result ?u"
    by (rule or_is_Union_spec [OF assms])
  have i: "OrderedCounter_and a (Counter b) = Result ?i"
    by (rule and_is_Intersect_spec [OF assms(1)])
  have wu: "wf_entries ?u" and wi: "wf_entries ?i"
    by (rule wf_specs [OF assms])+
  have x: "OrderedCounter_xor a (Counter b) = Result ?x"
    using xor_unfold [OF u i] sub_is_Subtract_spec [OF wu wi] by simp
  have wx: "wf_entries ?x"
    by (rule wf_specs [OF wu wi])
  have r: "OrderedCounter_add ?i (Counter ?x) = Result ?r"
    by (rule add_is_Add_spec [OF wi wx])
  have "map_of ?u k = map_of ?r k" for k
  proof -
    let ?m = "max (getitem a k) (getitem b k)" and ?n = "min (getitem a k) (getitem b k)"
    have gu: "getitem ?u k = max 0 ?m"
      by (rule getitem_positive_part [OF map_of_Union_spec])
    have gi: "getitem ?i k = max 0 ?n"
      by (rule getitem_positive_part [OF map_of_Intersect_spec])
    have "getitem ?x k = max 0 (getitem ?u k - getitem ?i k)"
      by (rule getitem_positive_part [OF map_of_Subtract_spec])
    then have gx: "getitem ?x k = max 0 (max 0 ?m - max 0 ?n)"
      by (simp only: gu gi)
    have "map_of ?r k = positive_part (max 0 ?n + max 0 (max 0 ?m - max 0 ?n))"
      using map_of_Add_spec [of ?i ?x k] gi gx by simp
    also have "\<dots> = positive_part ?m"
      by (simp add: positive_part_def max_def min_def)
    finally show ?thesis by (simp add: map_of_Union_spec)
  qed
  then have "map_of ?u = map_of ?r" by (rule ext)
  with u i x r show ?thesis by blast
qed

text \<open>
  C9. For well-formed counters \<open>a\<close> and \<open>b\<close> with nonnegative counts, \<open>a | b\<close>, \<open>a & b\<close>
  and \<open>a ^ b\<close> return counters, and \<open>(a & b) + (a ^ b)\<close> maps every key to the count
  that \<open>a | b\<close> maps it to (the two may list their keys in different orders).
\<close>

theorem union_is_intersect_plus_xor:
  "wf_entries a \<and> wf_entries b \<and> nonnegative a \<and> nonnegative b \<longrightarrow>
     (\<exists>u i x r. OrderedCounter_or a (Counter b) = Result u
          \<and> OrderedCounter_and a (Counter b) = Result i
          \<and> OrderedCounter_xor a (Counter b) = Result x
          \<and> OrderedCounter_add i (Counter x) = Result r
          \<and> map_of u = map_of r)"
  using union_content by blast

theorem union_is_intersect_plus_xor_witness:
  "wf_entries [(CHR ''x'', 1), (CHR ''y'', 1)] \<and> wf_entries [(CHR ''y'', 2)]
   \<and> nonnegative [(CHR ''x'', 1), (CHR ''y'', 1)] \<and> nonnegative [(CHR ''y'', 2)]
   \<and> OrderedCounter_or [(CHR ''x'', 1), (CHR ''y'', 1)] (Counter [(CHR ''y'', 2)])
       = Result [(CHR ''x'', 1), (CHR ''y'', 2)]
   \<and> OrderedCounter_and [(CHR ''x'', 1), (CHR ''y'', 1)] (Counter [(CHR ''y'', 2)])
       = Result [(CHR ''y'', 1)]
   \<and> OrderedCounter_xor [(CHR ''x'', 1), (CHR ''y'', 1)] (Counter [(CHR ''y'', 2)])
       = Result [(CHR ''x'', 1), (CHR ''y'', 1)]
   \<and> OrderedCounter_add [(CHR ''y'', 1)] (Counter [(CHR ''x'', 1), (CHR ''y'', 1)])
       = Result [(CHR ''y'', 2), (CHR ''x'', 1)]
   \<and> map_of [(CHR ''x'', 1), (CHR ''y'', 2::int)] = map_of [(CHR ''y'', 2), (CHR ''x'', 1)]"
proof -
  let ?a = "[(CHR ''x'', 1::int), (CHR ''y'', 1)]" and ?b = "[(CHR ''y'', 2::int)]"
  have h: "wf_entries ?a \<and> wf_entries ?b \<and> nonnegative ?a \<and> nonnegative ?b"
    by (simp add: wf_entries_def keys_def nonnegative_def)
  have e: "OrderedCounter_or ?a (Counter ?b) = Result [(CHR ''x'', 1), (CHR ''y'', 2)]"
    "OrderedCounter_and ?a (Counter ?b) = Result [(CHR ''y'', 1)]"
    "OrderedCounter_xor ?a (Counter ?b) = Result [(CHR ''x'', 1), (CHR ''y'', 1)]"
    "OrderedCounter_add [(CHR ''y'', 1)] (Counter [(CHR ''x'', 1), (CHR ''y'', 1)])
       = Result [(CHR ''y'', 2), (CHR ''x'', 1)]"
    by (simp_all add: OrderedCounter_xor_def OrderedCounter_or_def OrderedCounter_and_def
        OrderedCounter_sub_def OrderedCounter_add_def
        getitem_def items_def contains_def keys_def)
  from union_is_intersect_plus_xor [of ?a ?b] h obtain u i x r where
    o: "OrderedCounter_or ?a (Counter ?b) = Result u"
      "OrderedCounter_and ?a (Counter ?b) = Result i"
      "OrderedCounter_xor ?a (Counter ?b) = Result x"
      "OrderedCounter_add i (Counter x) = Result r"
      "map_of u = map_of r"
    by blast
  from o(1) e(1) have u: "u = [(CHR ''x'', 1), (CHR ''y'', 2)]" by simp
  from o(2) e(2) have i: "i = [(CHR ''y'', 1)]" by simp
  from o(3) e(3) have x: "x = [(CHR ''x'', 1), (CHR ''y'', 1)]" by simp
  from o(4) e(4) have r: "r = [(CHR ''y'', 2), (CHR ''x'', 1)]" unfolding i x by simp
  from o(5) have "map_of [(CHR ''x'', 1), (CHR ''y'', 2::int)] = map_of [(CHR ''y'', 2), (CHR ''x'', 1)]"
    unfolding u r .
  with h e show ?thesis by simp
qed

section \<open>Iteration order under mutation\<close>

lemma keys_delitem: "distinct (keys d) \<Longrightarrow> keys (delitem d k) = removeAll k (keys d)"
  by (induction d) (auto simp: keys_def)

lemma wf_mutate: "wf_entries d \<Longrightarrow> wf_entries (mutate d m)"
  by (cases m) (auto simp: wf_entries_def keys_setitem keys_delitem distinct_removeAll)

lemma removeAll_as_filter: "removeAll x xs = filter (\<lambda>k. k \<noteq> x) xs"
  by (induction xs) auto

lemma first_seen_append:
  "first_seen (xs @ ys) = first_seen xs @ filter (\<lambda>k. k \<notin> set xs) (first_seen ys)"
proof (induction xs)
  case Nil
  then show ?case by simp
next
  case (Cons x xs)
  have "filter (\<lambda>k. k \<noteq> x) (filter (\<lambda>k. k \<notin> set xs) zs)
      = filter (\<lambda>k. k \<notin> set (x # xs)) zs" for zs
    by (induction zs) auto
  with Cons show ?case by (simp add: removeAll_as_filter)
qed

lemma first_seen_distinct: "distinct xs \<Longrightarrow> first_seen xs = xs"
  by (induction xs) auto

lemma set_first_seen: "set (first_seen xs) = set xs"
  by (induction xs) auto

lemma distinct_first_seen: "distinct (first_seen xs)"
  by (induction xs) (auto simp: set_first_seen distinct_removeAll)

lemma first_seen_seen_again:
  assumes "k \<in> set xs"
  shows "first_seen (xs @ k # ys) = first_seen (xs @ ys)"
proof -
  have "filter (\<lambda>k. k \<notin> set xs) (filter (\<lambda>k'. k' \<noteq> k) zs) = filter (\<lambda>k. k \<notin> set xs) zs" for zs
    using assms by (induction zs) auto
  with assms show ?thesis
    by (simp add: first_seen_append removeAll_as_filter)
qed

lemma live_writes_write:
  "\<not> is_Delete m \<Longrightarrow> live_writes (m # ms) =
     (if Delete (key_of m) \<in> set ms then live_writes ms else key_of m # live_writes ms)"
  by (cases m) simp_all

lemma keys_mutate_write:
  "\<not> is_Delete m \<Longrightarrow>
     keys (mutate d m) = (if key_of m \<in> set (keys d) then keys d else keys d @ [key_of m])"
  by (cases m) (simp_all add: keys_setitem)

lemma not_Delete_neq: "\<not> is_Delete m \<Longrightarrow> Delete k \<noteq> m"
  by (cases m) simp_all

lemma keys_mutate_all:
  assumes "wf_entries d"
  shows "keys (mutate_all d ms)
       = first_seen (filter (\<lambda>k. Delete k \<notin> set ms) (keys d) @ live_writes ms)"
  using assms
proof (induction ms arbitrary: d)
  case Nil
  then show ?case
    by (simp add: mutate_all_def first_seen_distinct wf_entries_def)
next
  case (Cons m ms)
  from Cons.prems have wf': "wf_entries (mutate d m)" by (rule wf_mutate)
  have step: "mutate_all d (m # ms) = mutate_all (mutate d m) ms"
    by (simp add: mutate_all_def)
  note IH = Cons.IH [OF wf']
  show ?case
  proof (cases "is_Delete m")
    case True
    then obtain k where m: "m = Delete k" by (cases m) simp_all
    from Cons.prems have k1: "keys (mutate d m) = filter (\<lambda>k'. k' \<noteq> k) (keys d)"
      by (simp add: m keys_delitem wf_entries_def removeAll_as_filter)
    have k2: "filter (\<lambda>k'. Delete k' \<notin> set ms) (filter (\<lambda>k'. k' \<noteq> k) (keys d))
        = filter (\<lambda>k'. Delete k' \<notin> set (m # ms)) (keys d)"
      by (auto simp: m intro: filter_cong)
    have k3: "live_writes (m # ms) = live_writes ms"
      by (simp add: m)
    from IH show ?thesis
      by (simp only: step k1 k2 k3)
  next
    case False
    let ?k = "key_of m"
    have f: "filter (\<lambda>k'. Delete k' \<notin> set (m # ms)) xs = filter (\<lambda>k'. Delete k' \<notin> set ms) xs" for xs
      using not_Delete_neq [OF False] by (auto intro: filter_cong)
    show ?thesis
    proof (cases "Delete ?k \<in> set ms")
      case True
      then have "filter (\<lambda>k'. Delete k' \<notin> set ms) (keys (mutate d m))
          = filter (\<lambda>k'. Delete k' \<notin> set ms) (keys d)"
        by (simp add: keys_mutate_write [OF False])
      with IH True show ?thesis
        by (simp only: step f live_writes_write [OF False] if_True)
    next
      case live: False
      show ?thesis
      proof (cases "?k \<in> set (keys d)")
        case True
        with live have "?k \<in> set (filter (\<lambda>k'. Delete k' \<notin> set ms) (keys d))" by simp
        from first_seen_seen_again [OF this] IH True live show ?thesis
          by (simp only: step f live_writes_write [OF False] keys_mutate_write [OF False] if_True if_False)
      next
        case False
        with live have kd: "filter (\<lambda>k'. Delete k' \<notin> set ms) (keys (mutate d m))
            = filter (\<lambda>k'. Delete k' \<notin> set ms) (keys d) @ [?k]"
          by (simp add: keys_mutate_write [OF \<open>\<not> is_Delete m\<close>])
        have lw: "live_writes (m # ms) = ?k # live_writes ms"
          using live by (simp add: live_writes_write [OF \<open>\<not> is_Delete m\<close>])
        from IH show ?thesis
          by (simp only: step f lw kd append_assoc append.simps)
      qed
    qed
  qed
qed

lemma live_writes_no_delete:
  "list_all (\<lambda>m. \<not> is_Delete m) ms \<Longrightarrow> live_writes ms = map key_of ms"
proof (induction ms)
  case Nil
  then show ?case by simp
next
  case (Cons m ms)
  then have nd: "\<not> is_Delete m" and rest: "list_all (\<lambda>m. \<not> is_Delete m) ms" by simp_all
  from rest have "Delete (key_of m) \<notin> set ms"
    by (auto simp: list_all_iff)
  with Cons.IH [OF rest] show ?case
    by (simp add: live_writes_write [OF nd])
qed

lemma count_elements_as_mutations:
  "count_elements d xs = mutate_all d (map (\<lambda>k. Increment k 1) xs)"
proof (induction xs arbitrary: d)
  case Nil
  then show ?case by (simp add: count_elements_def mutate_all_def)
next
  case (Cons x xs)
  have "dict_get d x 0 = getitem d x"
    by (simp add: dict_get_def getitem_def)
  with Cons [of "setitem d x (getitem d x + 1)"] show ?case
    by (simp add: count_elements_def mutate_all_def)
qed

text \<open>
  C7, as stated, fails with deletes: after \<open>a\<close> and \<open>b\<close> are set, \<open>a\<close> is deleted and
  set again, the counter iterates \<open>b, a\<close>, while \<open>a\<close> was first seen before \<open>b\<close>.
\<close>

theorem first_seen_order_counterexample:
  "keys (mutate_all []
      [SetCount (CHR ''a'') 1, SetCount (CHR ''b'') 1, Delete (CHR ''a''), SetCount (CHR ''a'') 1])
     = [CHR ''b'', CHR ''a'']
   \<and> first_seen (map key_of
      [SetCount (CHR ''a'') 1, SetCount (CHR ''b'') 1, Delete (CHR ''a''), SetCount (CHR ''a'') 1])
     = [CHR ''a'', CHR ''b'']"
  by (simp add: mutate_all_def keys_def)

text \<open>
  C7, amended. For every sequence of increments, sets and deletes applied to a
  well-formed counter, the iteration order is: the keys it started with that the sequence
  never deletes, then the written keys, each at the place of its first write that no
  later delete of that key follows. For a sequence without deletes applied to the empty
  counter, and for the construction from a sequence of elements, that is the order in
  which each distinct key was first seen. Incrementing or overwriting the count of a
  key that is present never changes its position.
\<close>

theorem order_of_live_first_writes:
  "(wf_entries d \<longrightarrow>
      keys (mutate_all d ms)
        = first_seen (filter (\<lambda>k. Delete k \<notin> set ms) (keys d) @ live_writes ms))
   \<and> (list_all (\<lambda>m. \<not> is_Delete m) ms \<longrightarrow>
        keys (mutate_all [] ms) = first_seen (map key_of ms))
   \<and> keys (OrderedCounter_of_iterable xs) = first_seen xs
   \<and> (contains d k \<longrightarrow>
        keys (mutate d (Increment k delta)) = keys d
        \<and> keys (mutate d (SetCount k n)) = keys d)"
proof (intro conjI impI)
  assume "wf_entries d"
  then show "keys (mutate_all d ms)
        = first_seen (filter (\<lambda>k. Delete k \<notin> set ms) (keys d) @ live_writes ms)"
    by (rule keys_mutate_all)
next
  assume "list_all (\<lambda>m. \<not> is_Delete m) ms"
  then have "live_writes ms = map key_of ms"
    by (rule live_writes_no_delete)
  with keys_mutate_all [of "[]" ms] show "keys (mutate_all [] ms) = first_seen (map key_of ms)"
    by (simp add: wf_entries_def keys_def)
next
  have "list_all (\<lambda>m. \<not> is_Delete m) (map (\<lambda>k. Increment k 1) xs)"
    by (simp add: list_all_iff)
  from live_writes_no_delete [OF this]
  have "live_writes (map (\<lambda>k. Increment k 1) xs) = xs"
    by (simp add: comp_def)
  with keys_mutate_all [of "[]" "map (\<lambda>k. Increment k 1) xs"]
  show "keys (OrderedCounter_of_iterable xs) = first_seen xs"
    by (simp add: OrderedCounter_of_iterable_def count_elements_as_mutations
        wf_entries_def keys_def)
next
  assume "contains d k"
  then show "keys (mutate d (Increment k delta)) = keys d"
    by (simp add: keys_setitem contains_def)
next
  assume "contains d k"
  then show "keys (mutate d (SetCount k n)) = keys d"
    by (simp add: keys_setitem contains_def)
qed

theorem order_of_live_first_writes_witness:
  "wf_entries [(CHR ''a'', 1), (CHR ''b'', 2)]
   \<and> keys (mutate_all [(CHR ''a'', 1), (CHR ''b'', 2)]
        [Delete (CHR ''a''), Increment (CHR ''c'') 1, SetCount (CHR ''a'') 5,
         Increment (CHR ''b'') 1])
      = [CHR ''b'', CHR ''c'', CHR ''a'']
   \<and> list_all (\<lambda>m. \<not> is_Delete m)
        [SetCount (CHR ''a'') 1, Increment (CHR ''b'') 1, Increment (CHR ''a'') 2]
   \<and> keys (mutate_all []
        [SetCount (CHR ''a'') 1, Increment (CHR ''b'') 1, Increment (CHR ''a'') 2])
      = [CHR ''a'', CHR ''b'']
   \<and> contains [(CHR ''a'', 1), (CHR ''b'', 2)] (CHR ''a'')
   \<and> keys (mutate [(CHR ''a'', 1), (CHR ''b'', 2)] (Increment (CHR ''a'') 7))
      = [CHR ''a'', CHR ''b'']
   \<and> keys (mutate [(CHR ''a'', 1), (CHR ''b'', 2)] (SetCount (CHR ''a'') 0))
      = [CHR ''a'', CHR ''b'']"
  using order_of_live_first_writes [of "[(CHR ''a'', 1), (CHR ''b'', 2)]"
      "[Delete (CHR ''a''), Increment (CHR ''c'') 1, SetCount (CHR ''a'') 5,
         Increment (CHR ''b'') 1]" "[]" "CHR ''a''" 7 0]
    order_of_live_first_writes [of "[(CHR ''a'', 1), (CHR ''b'', 2)]"
      "[SetCount (CHR ''a'') 1, Increment (CHR ''b'') 1, Increment (CHR ''a'') 2]"
      "[]" "CHR ''a''" 7 0]
  by (simp add: wf_entries_def keys_def contains_def mutate_all_def getitem_def
      OrderedCounter_of_iterable_def count_elements_def)

section \<open>The operators on the store\<close>

text \<open>
  A loop that writes to the result object only, read through the store, computes what
  the same loop computes on the entries.
\<close>

lemma heap_fold:
  assumes "res < length h" and "s \<noteq> res" and "ot \<noteq> res" and "h ! res = Counter acc"
  shows "fold (\<lambda>(e, c) h. if P (h ! s) (h ! ot) e c
                          then heap_setitem h res e (f (h ! s) (h ! ot) e c) else h) xs h
       = h[res := Counter (fold (\<lambda>(e, c) r. if P (h ! s) (h ! ot) e c
                          then setitem r e (f (h ! s) (h ! ot) e c) else r) xs acc)]"
  using assms
proof (induction xs arbitrary: h acc)
  case Nil
  then show ?case by (simp add: list_update_same_conv [THEN iffD2])
next
  case (Cons x xs)
  obtain e c where x: "x = (e, c)" by (cases x)
  show ?case
  proof (cases "P (h ! s) (h ! ot) e c")
    case True
    let ?v = "f (h ! s) (h ! ot) e c"
    let ?h = "heap_setitem h res e ?v"
    have h': "?h = h[res := Counter (setitem acc e ?v)]"
      using Cons.prems(4) by (simp add: heap_setitem_def)
    have 1: "res < length ?h" and 2: "?h ! s = h ! s" and 3: "?h ! ot = h ! ot"
      and 4: "?h ! res = Counter (setitem acc e ?v)"
      using Cons.prems by (simp_all add: h')
    from Cons.IH [OF 1 Cons.prems(2,3) 4]
    have "fold (\<lambda>(e, c) h. if P (h ! s) (h ! ot) e c
                          then heap_setitem h res e (f (h ! s) (h ! ot) e c) else h) xs ?h
       = ?h[res := Counter (fold (\<lambda>(e, c) r. if P (h ! s) (h ! ot) e c
                          then setitem r e (f (h ! s) (h ! ot) e c) else r) xs
                          (setitem acc e ?v))]"
      unfolding 2 3 .
    with True show ?thesis
      by (simp add: x h')
  next
    case False
    with Cons.IH [OF Cons.prems] show ?thesis by (simp add: x)
  qed
qed

lemma heap_loop:
  assumes "s < length h" and "ot < length h"
  shows "fold (\<lambda>(e, c) h'. if P (h' ! s) (h' ! ot) e c
                          then heap_setitem h' (length h) e (f (h' ! s) (h' ! ot) e c) else h')
           xs (h @ [Counter acc])
       = h @ [Counter (fold (\<lambda>(e, c) r. if P (h ! s) (h ! ot) e c
                          then setitem r e (f (h ! s) (h ! ot) e c) else r) xs acc)]"
  using heap_fold [of "length h" "h @ [Counter acc]" s ot acc P f xs] assms
  by (simp add: nth_append cong: if_cong)

lemma heap_add_pure:
  assumes "self < length h" and "other < length h"
  shows "heap_add h self other =
     (case OrderedCounter_add (entries_of (h ! self)) (h ! other) of
        Result r \<Rightarrow> (Ref (length h), h @ [Counter r])
      | NotImplemented \<Rightarrow> (RNotImplemented, h)
      | TypeError \<Rightarrow> (RTypeError, h))"
proof (cases "isinstance_Counter (h ! other)")
  case False
  then show ?thesis by (simp add: heap_add_def OrderedCounter_add_def)
next
  case True
  note l1 = heap_loop [OF assms, where P = "\<lambda>so oo e c. c + getitem (entries_of oo) e > 0"
      and f = "\<lambda>so oo e c. c + getitem (entries_of oo) e"]
  note l2 = heap_loop [OF assms, where P = "\<lambda>so oo e c. \<not> contains (entries_of so) e \<and> c > 0"
      and f = "\<lambda>so oo e c. c"]
  from True assms show ?thesis
    by (simp add: heap_add_def OrderedCounter_add_def new_counter_def heap_items_def
        heap_getitem_def heap_contains_def Let_def nth_append l1 l2)
qed

lemma heap_sub_pure:
  assumes "self < length h" and "other < length h"
  shows "heap_sub h self other =
     (case OrderedCounter_sub (entries_of (h ! self)) (h ! other) of
        Result r \<Rightarrow> (Ref (length h), h @ [Counter r])
      | NotImplemented \<Rightarrow> (RNotImplemented, h)
      | TypeError \<Rightarrow> (RTypeError, h))"
proof (cases "isinstance_Counter (h ! other)")
  case False
  then show ?thesis by (simp add: heap_sub_def OrderedCounter_sub_def)
next
  case True
  note l1 = heap_loop [OF assms, where P = "\<lambda>so oo e c. getitem (entries_of oo) e < c"
      and f = "\<lambda>so oo e c. c - getitem (entries_of oo) e"]
  note l2 = heap_loop [OF assms, where P = "\<lambda>so oo e c. \<not> contains (entries_of so) e \<and> c < 0"
      and f = "\<lambda>so oo e c. 0 - c"]
  from True assms show ?thesis
    by (simp add: heap_sub_def OrderedCounter_sub_def new_counter_def heap_items_def
        heap_getitem_def heap_contains_def Let_def nth_append l1 l2)
qed

lemma heap_or_pure:
  assumes "self < length h" and "other < length h"
  shows "heap_or h self other =
     (case OrderedCounter_or (entries_of (h ! self)) (h ! other) of
        Result r \<Rightarrow> (Ref (length h), h @ [Counter r])
      | NotImplemented \<Rightarrow> (RNotImplemented, h)
      | TypeError \<Rightarrow> (RTypeError, h))"
proof (cases "isinstance_Counter (h ! other)")
  case False
  then show ?thesis by (simp add: heap_or_def OrderedCounter_or_def)
next
  case True
  note l1 = heap_loop [OF assms, where
      P = "\<lambda>so oo e c. (if c < getitem (entries_of oo) e then getitem (entries_of oo) e else c) > 0"
      and f = "\<lambda>so oo e c. if c < getitem (entries_of oo) e then getitem (entries_of oo) e else c"]
  note l2 = heap_loop [OF assms, where P = "\<lambda>so oo e c. \<not> contains (entries_of so) e \<and> c > 0"
      and f = "\<lambda>so oo e c. c"]
  from True assms show ?thesis
    by (simp add: heap_or_def OrderedCounter_or_def new_counter_def heap_items_def
        heap_getitem_def heap_contains_def Let_def nth_append l1 l2)
qed

lemma heap_and_pure:
  assumes "self < length h" and "other < length h"
  shows "heap_and h self other =
     (case OrderedCounter_and (entries_of (h ! self)) (h ! other) of
        Result r \<Rightarrow> (Ref (length h), h @ [Counter r])
      | NotImplemented \<Rightarrow> (RNotImplemented, h)
      | TypeError \<Rightarrow> (RTypeError, h))"
proof (cases "isinstance_Counter (h ! other)")
  case False
  then show ?thesis by (simp add: heap_and_def OrderedCounter_and_def)
next
  case True
  note l1 = heap_loop [OF assms, where
      P = "\<lambda>so oo e c. (if c < getitem (entries_of oo) e then c else getitem (entries_of oo) e) > 0"
      and f = "\<lambda>so oo e c. if c < getitem (entries_of oo) e then c else getitem (entries_of oo) e"]
  from True assms show ?thesis
    by (simp add: heap_and_def OrderedCounter_and_def new_counter_def heap_items_def
        heap_getitem_def heap_contains_def Let_def nth_append l1)
qed

lemma heap_pos_pure:
  assumes "self < length h"
  shows "heap_pos h self
       = (Ref (length h), h @ [Counter (OrderedCounter_pos (entries_of (h ! self)))])"
proof -
  note l1 = heap_loop [OF assms assms, where P = "\<lambda>so oo e c. c > 0" and f = "\<lambda>so oo e c. c"]
  from assms show ?thesis
    by (simp add: heap_pos_def OrderedCounter_pos_def new_counter_def heap_items_def
        Let_def nth_append l1)
qed

lemma heap_neg_pure:
  assumes "self < length h"
  shows "heap_neg h self
       = (Ref (length h), h @ [Counter (OrderedCounter_neg (entries_of (h ! self)))])"
proof -
  note l1 = heap_loop [OF assms assms, where P = "\<lambda>so oo e c. c < 0" and f = "\<lambda>so oo e c. 0 - c"]
  from assms show ?thesis
    by (simp add: heap_neg_def OrderedCounter_neg_def new_counter_def heap_items_def
        Let_def nth_append l1)
qed

lemma heap_xor_pure:
  assumes "self < length h" and "other < length h"
  shows "heap_xor h self other =
     (case OrderedCounter_xor (entries_of (h ! self)) (h ! other) of
        Result x \<Rightarrow>
          (case (OrderedCounter_or (entries_of (h ! self)) (h ! other),
                 OrderedCounter_and (entries_of (h ! self)) (h ! other)) of
             (Result u, Result i) \<Rightarrow>
               (Ref (length h + 2), h @ [Counter u, Counter i, Counter x])
           | _ \<Rightarrow> (RTypeError, h))
      | NotImplemented \<Rightarrow> (RNotImplemented, h)
      | TypeError \<Rightarrow> (RTypeError, h))"
proof (cases "isinstance_Counter (h ! other)")
  case False
  then show ?thesis by (simp add: heap_xor_def OrderedCounter_xor_def)
next
  case True
  then obtain b where b: "h ! other = Counter b" by (cases "h ! other") simp_all
  let ?a = "entries_of (h ! self)"
  obtain u i where u: "OrderedCounter_or ?a (Counter b) = Result u"
    and i: "OrderedCounter_and ?a (Counter b) = Result i"
    using or_returns and_returns by blast
  obtain x where x: "OrderedCounter_sub u (Counter i) = Result x"
    using sub_returns by blast
  have xo: "OrderedCounter_xor ?a (Counter b) = Result x"
    using xor_unfold [OF u i] x by simp
  let ?h1 = "h @ [Counter u]"
  let ?h2 = "h @ [Counter u, Counter i]"
  have 1: "heap_or h self other = (Ref (length h), ?h1)"
    using heap_or_pure [OF assms] u by (simp add: b)
  have 2: "heap_and ?h1 self other = (Ref (Suc (length h)), ?h2)"
    using heap_and_pure [of self ?h1 other] assms i by (simp add: b nth_append)
  have 3: "heap_sub ?h2 (length h) (Suc (length h))
         = (Ref (Suc (Suc (length h))), h @ [Counter u, Counter i, Counter x])"
    using heap_sub_pure [of "length h" ?h2 "Suc (length h)"] x by (simp add: nth_append)
  from True show ?thesis
    by (simp add: heap_xor_def 1 2 3 b u i xo)
qed

lemma kept_append:
  assumes "s < length h" and "ot < length h"
  shows "operands_kept h s ot (r, h @ ys)"
  using assms by (simp add: operands_kept_def unchanged_def nth_append)

lemma kept_outcome:
  assumes "s < length h" and "ot < length h"
    and "res = (case oc of Result r \<Rightarrow> (Ref (length h), h @ [Counter r])
                | NotImplemented \<Rightarrow> (RNotImplemented, h) | TypeError \<Rightarrow> (RTypeError, h))"
  shows "operands_kept h s ot res"
  using kept_append [OF assms(1,2), of _ "[]"] kept_append [OF assms(1,2)] assms(3)
  by (cases oc) simp_all

lemma fresh_outcome:
  assumes "res = (case oc of Result r \<Rightarrow> (Ref (length h), h @ [Counter r])
                | NotImplemented \<Rightarrow> (RNotImplemented, h) | TypeError \<Rightarrow> (RTypeError, h))"
    and "\<exists>r. oc = Result r"
  shows "fresh h res"
  using assms by auto

lemma heap_xor_kept:
  assumes "self < length h" and "other < length h"
  shows "operands_kept h self other (heap_xor h self other)"
proof (cases "isinstance_Counter (h ! other)")
  case False
  with kept_append [OF assms, of _ "[]"] show ?thesis
    by (simp add: heap_xor_def)
next
  case True
  then obtain b where b: "h ! other = Counter b" by (cases "h ! other") simp_all
  obtain u i x where "OrderedCounter_or (entries_of (h ! self)) (Counter b) = Result u"
    "OrderedCounter_and (entries_of (h ! self)) (Counter b) = Result i"
    "OrderedCounter_xor (entries_of (h ! self)) (Counter b) = Result x"
    using or_returns and_returns xor_returns by metis
  with heap_xor_pure [OF assms] kept_append [OF assms] show ?thesis
    by (simp add: b)
qed

lemma heap_xor_fresh:
  assumes "self < length h" and "other < length h" and "isinstance_Counter (h ! other)"
  shows "fresh h (heap_xor h self other)"
proof -
  from assms(3) obtain b where b: "h ! other = Counter b" by (cases "h ! other") simp_all
  obtain u i x where "OrderedCounter_or (entries_of (h ! self)) (Counter b) = Result u"
    "OrderedCounter_and (entries_of (h ! self)) (Counter b) = Result i"
    "OrderedCounter_xor (entries_of (h ! self)) (Counter b) = Result x"
    using or_returns and_returns xor_returns by metis
  with heap_xor_pure [OF assms(1,2)] show ?thesis
    by (simp add: b nth_append)
qed

text \<open>
  C10. For valid references \<open>self\<close> and \<open>other\<close> (which may be the same object), each
  of \<open>__add__\<close>, \<open>__sub__\<close>, \<open>__or__\<close>, \<open>__and__\<close>, \<open>__xor__\<close>, \<open>__pos__\<close> and
  \<open>__neg__\<close> leaves every object of the store as it was, the receiver and the operand
  among them with their entries and order, and what it returns (for a \<open>Counter\<close>
  operand, in the binary case) is a reference to a counter that did not exist before.
\<close>

theorem operators_return_new_instance:
  "self < length h \<and> other < length h \<longrightarrow>
     operands_kept h self other (heap_add h self other)
   \<and> operands_kept h self other (heap_sub h self other)
   \<and> operands_kept h self other (heap_or h self other)
   \<and> operands_kept h self other (heap_and h self other)
   \<and> operands_kept h self other (heap_xor h self other)
   \<and> operands_kept h self self (heap_pos h self)
   \<and> operands_kept h self self (heap_neg h self)
   \<and> fresh h (heap_pos h self)
   \<and> fresh h (heap_neg h self)
   \<and> (isinstance_Counter (h ! other) \<longrightarrow>
         fresh h (heap_add h self other)
       \<and> fresh h (heap_sub h self other)
       \<and> fresh h (heap_or h self other)
       \<and> fresh h (heap_and h self other)
       \<and> fresh h (heap_xor h self other))"
proof (intro impI, elim conjE)
  assume s: "self < length h" and o: "other < length h"
  have kept: "operands_kept h self other (heap_add h self other)"
    "operands_kept h self other (heap_sub h self other)"
    "operands_kept h self other (heap_or h self other)"
    "operands_kept h self other (heap_and h self other)"
    by (rule kept_outcome [OF s o heap_add_pure [OF s o]],
        rule kept_outcome [OF s o heap_sub_pure [OF s o]],
        rule kept_outcome [OF s o heap_or_pure [OF s o]],
        rule kept_outcome [OF s o heap_and_pure [OF s o]])
  have unary: "operands_kept h self self (heap_pos h self)"
    "operands_kept h self self (heap_neg h self)"
    "fresh h (heap_pos h self)" "fresh h (heap_neg h self)"
    using kept_append [OF s s]
    by (simp_all add: heap_pos_pure [OF s] heap_neg_pure [OF s])
  have new: "fresh h (heap_add h self other)" "fresh h (heap_sub h self other)"
    "fresh h (heap_or h self other)" "fresh h (heap_and h self other)"
    "fresh h (heap_xor h self other)"
    if c: "isinstance_Counter (h ! other)"
  proof -
    from c obtain b where b: "h ! other = Counter b" by (cases "h ! other") simp_all
    show "fresh h (heap_add h self other)"
      by (rule fresh_outcome [OF heap_add_pure [OF s o]]) (simp add: b add_returns)
    show "fresh h (heap_sub h self other)"
      by (rule fresh_outcome [OF heap_sub_pure [OF s o]]) (simp add: b sub_returns)
    show "fresh h (heap_or h self other)"
      by (rule fresh_outcome [OF heap_or_pure [OF s o]]) (simp add: b or_returns)
    show "fresh h (heap_and h self other)"
      by (rule fresh_outcome [OF heap_and_pure [OF s o]]) (simp add: b and_returns)
    show "fresh h (heap_xor h self other)"
      by (rule heap_xor_fresh [OF s o c])
  qed
  from kept unary new heap_xor_kept [OF s o]
  show "operands_kept h self other (heap_add h self other)
   \<and> operands_kept h self other (heap_sub h self other)
   \<and> operands_kept h self other (heap_or h self other)
   \<and> operands_kept h self other (heap_and h self other)
   \<and> operands_kept h self other (heap_xor h self other)
   \<and> operands_kept h self self (heap_pos h self)
   \<and> operands_kept h self self (heap_neg h self)
   \<and> fresh h (heap_pos h self)
   \<and> fresh h (heap_neg h self)
   \<and> (isinstance_Counter (h ! other) \<longrightarrow>
         fresh h (heap_add h self other)
       \<and> fresh h (heap_sub h self other)
       \<and> fresh h (heap_or h self other)
       \<and> fresh h (heap_and h self other)
       \<and> fresh h (heap_xor h self other))"
    by blast
qed

theorem operators_return_new_instance_witness:
  "(0::nat) < length [Counter [(CHR ''a'', 1), (CHR ''b'', 3)], Counter [(CHR ''b'', 1), (CHR ''c'', 2)]]
   \<and> (1::nat) < length [Counter [(CHR ''a'', 1), (CHR ''b'', 3)], Counter [(CHR ''b'', 1), (CHR ''c'', 2)]]
   \<and> isinstance_Counter
        ([Counter [(CHR ''a'', 1), (CHR ''b'', 3)], Counter [(CHR ''b'', 1), (CHR ''c'', 2)]] ! 1)
   \<and> heap_sub [Counter [(CHR ''a'', 1), (CHR ''b'', 3)], Counter [(CHR ''b'', 1), (CHR ''c'', 2)]] 0 1
       = (Ref 2, [Counter [(CHR ''a'', 1), (CHR ''b'', 3)], Counter [(CHR ''b'', 1), (CHR ''c'', 2)],
                  Counter [(CHR ''a'', 1), (CHR ''b'', 2)]])
   \<and> heap_add [Counter [(CHR ''a'', 1), (CHR ''b'', 3)], Counter [(CHR ''b'', 1), (CHR ''c'', 2)]] 0 0
       = (Ref 2, [Counter [(CHR ''a'', 1), (CHR ''b'', 3)], Counter [(CHR ''b'', 1), (CHR ''c'', 2)],
                  Counter [(CHR ''a'', 2), (CHR ''b'', 6)]])
   \<and> heap_neg [Counter [(CHR ''a'', 1), (CHR ''b'', 3)], Counter [(CHR ''b'', 1), (CHR ''c'', 2)]] 0
       = (Ref 2, [Counter [(CHR ''a'', 1), (CHR ''b'', 3)], Counter [(CHR ''b'', 1), (CHR ''c'', 2)],
                  Counter []])
   \<and> fresh [Counter [(CHR ''a'', 1), (CHR ''b'', 3)], Counter [(CHR ''b'', 1), (CHR ''c'', 2)]]
        (heap_neg [Counter [(CHR ''a'', 1), (CHR ''b'', 3)], Counter [(CHR ''b'', 1), (CHR ''c'', 2)]] 0)
   \<and> operands_kept
        [Counter [(CHR ''a'', 1), (CHR ''b'', 3)], Counter [(CHR ''b'', 1), (CHR ''c'', 2)]] 0 1
        (heap_xor [Counter [(CHR ''a'', 1), (CHR ''b'', 3)], Counter [(CHR ''b'', 1), (CHR ''c'', 2)]] 0 1)
   \<and> fresh [Counter [(CHR ''a'', 1), (CHR ''b'', 3)], Counter [(CHR ''b'', 1), (CHR ''c'', 2)]]
        (heap_xor [Counter [(CHR ''a'', 1), (CHR ''b'', 3)], Counter [(CHR ''b'', 1), (CHR ''c'', 2)]] 0 1)"
proof -
  let ?h = "[Counter [(CHR ''a'', 1), (CHR ''b'', 3)], Counter [(CHR ''b'', 1), (CHR ''c'', 2)]]"
  have v: "(0::nat) < length ?h \<and> (1::nat) < length ?h" and c: "isinstance_Counter (?h ! 1)"
    by simp_all
  have e1: "heap_sub ?h 0 1 = (Ref 2, ?h @ [Counter [(CHR ''a'', 1), (CHR ''b'', 2)]])"
    using heap_sub_pure [of 0 ?h 1]
    by (simp add: OrderedCounter_sub_def getitem_def items_def contains_def keys_def)
  have e2: "heap_add ?h 0 0 = (Ref 2, ?h @ [Counter [(CHR ''a'', 2), (CHR ''b'', 6)]])"
    using heap_add_pure [of 0 ?h 0]
    by (simp add: OrderedCounter_add_def getitem_def items_def contains_def keys_def)
  have e3: "heap_neg ?h 0 = (Ref 2, ?h @ [Counter []])"
    using heap_neg_pure [of 0 ?h]
    by (simp add: OrderedCounter_neg_def items_def)
  from operators_return_new_instance [of 0 ?h 1] v c e1 e2 e3 show ?thesis
    by simp
qed

end
